theory Spec2Isabelle
  imports Main "HOL-Library.Multiset"
begin

section \<open>Card model\<close>

text \<open>
  The constants \<open>RANK\<close> and \<open>SUIT\<close> of the program enumerate the thirteen rank letters and
  the four suit names a \<open>Card\<close> is built from (the constructor's contract: a valid \<open>RANK\<close>
  value, a valid \<open>SUIT\<close> value).  Both are enumerations here; \<open>rank_char\<close> and \<open>suit_name\<close>
  give back the letter and the name the program stores.
\<close>

datatype rank = A | R2 | R3 | R4 | R5 | R6 | R7 | R8 | R9 | T | J | Q | K

datatype suit = Hearts | Clubs | Spades | Diamonds

fun rank_char :: "rank \<Rightarrow> char" where
  "rank_char A = CHR ''A''"
| "rank_char R2 = CHR ''2''"
| "rank_char R3 = CHR ''3''"
| "rank_char R4 = CHR ''4''"
| "rank_char R5 = CHR ''5''"
| "rank_char R6 = CHR ''6''"
| "rank_char R7 = CHR ''7''"
| "rank_char R8 = CHR ''8''"
| "rank_char R9 = CHR ''9''"
| "rank_char T = CHR ''T''"
| "rank_char J = CHR ''J''"
| "rank_char Q = CHR ''Q''"
| "rank_char K = CHR ''K''"

fun suit_name :: "suit \<Rightarrow> string" where
  "suit_name Hearts = ''Hearts''"
| "suit_name Clubs = ''Clubs''"
| "suit_name Spades = ''Spades''"
| "suit_name Diamonds = ''Diamonds''"

record Card =
  rank :: rank
  suit :: suit
  isjoker :: bool

text \<open>
  A Python list holds references to \<open>Card\<close> objects, and \<open>list.remove\<close> and \<open>in\<close> compare
  them by identity (the class defines no \<open>__eq__\<close>).  A sequence is therefore a list of
  object references, and the store maps a reference to the card it denotes.  No modelled
  function writes to a card, so the store is passed along unchanged.
\<close>

type_synonym ref = nat
type_synonym store = "ref \<Rightarrow> Card"

text \<open>Python exceptions that the modelled functions can raise.\<close>

datatype error = IndexError | ValueError string

section \<open>Rank values\<close>

text \<open>
  \<open>RANK_VALUE\<close> is a module-level dictionary; the only entry ever assigned to is the one
  of \<open>'A'\<close>.  The first argument is the current value of that entry: it is the shared
  state the validators read and write.
\<close>

fun RANK_VALUE :: "int \<Rightarrow> rank \<Rightarrow> int" where
  "RANK_VALUE av A = av"
| "RANK_VALUE av R2 = 2"
| "RANK_VALUE av R3 = 3"
| "RANK_VALUE av R4 = 4"
| "RANK_VALUE av R5 = 5"
| "RANK_VALUE av R6 = 6"
| "RANK_VALUE av R7 = 7"
| "RANK_VALUE av R8 = 8"
| "RANK_VALUE av R9 = 9"
| "RANK_VALUE av T = 10"
| "RANK_VALUE av J = 11"
| "RANK_VALUE av Q = 12"
| "RANK_VALUE av K = 13"

definition value_of :: "store \<Rightarrow> int \<Rightarrow> ref \<Rightarrow> int" where
  "value_of h av c = RANK_VALUE av (rank (h c))"

section \<open>sort_sequence\<close>

text \<open>
  One execution of the \<open>for i in range(0, len(sequence)-1)\<close> loop: adjacent elements out
  of order are exchanged in place and \<open>is_sort_complete\<close> is cleared.
\<close>

definition sort_step :: "store \<Rightarrow> int \<Rightarrow> nat \<Rightarrow> ref list \<times> bool \<Rightarrow> ref list \<times> bool" where
  "sort_step h av i st =
     (case st of (sequence, is_sort_complete) \<Rightarrow>
        if value_of h av (sequence ! i) > value_of h av (sequence ! (i + 1))
        then (sequence[i + 1 := sequence ! i, i := sequence ! (i + 1)], False)
        else (sequence, is_sort_complete))"

definition sort_pass :: "store \<Rightarrow> int \<Rightarrow> ref list \<Rightarrow> ref list \<times> bool" where
  "sort_pass h av sequence = fold (sort_step h av) [0..<length sequence - 1] (sequence, True)"

text \<open>The number of pairs of positions that are out of order.\<close>

fun inversions :: "('a \<Rightarrow> int) \<Rightarrow> 'a list \<Rightarrow> nat" where
  "inversions v [] = 0"
| "inversions v (x # xs) = length (filter (\<lambda>y. v y < v x) xs) + inversions v xs"

lemma inversions_append:
  "inversions v (xs @ ys) =
     inversions v xs + inversions v ys + (\<Sum>x\<leftarrow>xs. length (filter (\<lambda>y. v y < v x) ys))"
  by (induction xs) auto

lemma inversions_swap:
  assumes "v y < v x"
  shows "inversions v (as @ y # x # bs) < inversions v (as @ x # y # bs)"
proof -
  have "(\<Sum>a\<leftarrow>as. length (filter (\<lambda>b. v b < v a) (y # x # bs)))
      = (\<Sum>a\<leftarrow>as. length (filter (\<lambda>b. v b < v a) (x # y # bs)))"
    by (rule arg_cong [where f = sum_list]) (rule map_cong, auto)
  moreover have "inversions v (y # x # bs) < inversions v (x # y # bs)"
    using assms by auto
  ultimately show ?thesis
    by (simp only: inversions_append)
qed

lemma split_adjacent:
  assumes "i + 1 < length xs"
  shows "xs = take i xs @ xs ! i # xs ! (i + 1) # drop (i + 2) xs"
proof -
  have "xs = take i xs @ xs ! i # drop (Suc i) xs"
    using assms by (simp add: id_take_nth_drop)
  moreover have "drop (Suc i) xs = xs ! (i + 1) # drop (i + 2) xs"
    using assms by (simp add: Cons_nth_drop_Suc)
  ultimately show ?thesis by simp
qed

lemma exchange_append:
  "(as @ x # y # bs)[length as + 1 := x, length as := y] = as @ y # x # bs"
  by (simp add: list_update_append)

lemma inversions_exchange:
  assumes "i + 1 < length xs" and "v (xs ! (i + 1)) < v (xs ! i)"
  shows "inversions v (xs[i + 1 := xs ! i, i := xs ! (i + 1)]) < inversions v xs"
proof -
  obtain as bs where xs: "xs = as @ xs ! i # xs ! (i + 1) # bs" and len: "length as = i"
    using split_adjacent [OF assms(1)] assms(1) by (metis length_take min.absorb2 less_imp_le_nat add_lessD1)
  have "inversions v (as @ xs ! (i + 1) # xs ! i # bs) < inversions v (as @ xs ! i # xs ! (i + 1) # bs)"
    using assms(2) by (rule inversions_swap)
  moreover have "xs[i + 1 := xs ! i, i := xs ! (i + 1)] = as @ xs ! (i + 1) # xs ! i # bs"
    using exchange_append [of as "xs ! i" "xs ! (i + 1)" bs] xs len by metis
  ultimately show ?thesis
    using xs by metis
qed

lemma sort_step_facts:
  assumes "i + 1 < length xs" and "sort_step h av i (xs, d) = (ys, d')"
  shows "length ys = length xs" and "mset ys = mset xs"
    and "inversions (value_of h av) ys \<le> inversions (value_of h av) xs"
    and "d \<and> \<not> d' \<longrightarrow> inversions (value_of h av) ys < inversions (value_of h av) xs"
    and "\<not> d \<longrightarrow> \<not> d'"
proof -
  show "length ys = length xs"
    using assms(2) by (auto simp: sort_step_def split: if_splits)
  show "mset ys = mset xs"
    using assms by (auto simp: sort_step_def mset_swap split: if_splits)
  show "inversions (value_of h av) ys \<le> inversions (value_of h av) xs"
    using assms inversions_exchange [of i xs "value_of h av"]
    by (auto simp: sort_step_def split: if_splits)
  show "d \<and> \<not> d' \<longrightarrow> inversions (value_of h av) ys < inversions (value_of h av) xs"
    using assms inversions_exchange [of i xs "value_of h av"]
    by (auto simp: sort_step_def split: if_splits)
  show "\<not> d \<longrightarrow> \<not> d'"
    using assms(2) by (auto simp: sort_step_def split: if_splits)
qed

lemma sort_fold_facts:
  "k \<le> length xs - 1 \<Longrightarrow> fold (sort_step h av) [0..<k] (xs, True) = (ys, d) \<Longrightarrow>
     length ys = length xs \<and> mset ys = mset xs \<and>
     inversions (value_of h av) ys \<le> inversions (value_of h av) xs \<and>
     (\<not> d \<longrightarrow> inversions (value_of h av) ys < inversions (value_of h av) xs)"
proof (induction k arbitrary: ys d)
  case 0
  then show ?case by simp
next
  case (Suc k)
  obtain zs e where mid: "fold (sort_step h av) [0..<k] (xs, True) = (zs, e)"
    by (cases "fold (sort_step h av) [0..<k] (xs, True)")
  have ih: "length zs = length xs" "mset zs = mset xs"
    "inversions (value_of h av) zs \<le> inversions (value_of h av) xs"
    "\<not> e \<longrightarrow> inversions (value_of h av) zs < inversions (value_of h av) xs"
    using Suc.IH [OF _ mid] Suc.prems(1) by auto
  have step: "sort_step h av k (zs, e) = (ys, d)"
    using Suc.prems(2) mid by simp
  have rng: "k + 1 < length zs"
    using Suc.prems(1) ih(1) by simp
  note f = sort_step_facts [OF rng step]
  show ?case
  proof (intro conjI impI)
    show "length ys = length xs" using f(1) ih(1) by simp
    show "mset ys = mset xs" using f(2) ih(2) by simp
    show "inversions (value_of h av) ys \<le> inversions (value_of h av) xs"
      using f(3) ih(3) by simp
    show "inversions (value_of h av) ys < inversions (value_of h av) xs" if "\<not> d"
    proof (cases e)
      case True
      then show ?thesis using f(4) that ih(3) by simp
    next
      case False
      then show ?thesis using f(3) ih(4) by simp
    qed
  qed
qed

lemma sort_pass_facts:
  assumes "sort_pass h av xs = (ys, d)"
  shows "length ys = length xs" and "mset ys = mset xs"
    and "\<not> d \<Longrightarrow> inversions (value_of h av) ys < inversions (value_of h av) xs"
  using sort_fold_facts [of "length xs - 1" xs h av ys d] assms
  by (simp_all add: sort_pass_def)

text \<open>
  The \<open>while is_sort_complete == False\<close> loop: passes are repeated until one makes no
  exchange.  Every pass that exchanges something removes an inversion, so the loop ends.
\<close>

function sort_sequence :: "store \<Rightarrow> int \<Rightarrow> ref list \<Rightarrow> ref list" where
  "sort_sequence h av sequence =
     (case sort_pass h av sequence of (sequence', is_sort_complete) \<Rightarrow>
        if is_sort_complete then sequence' else sort_sequence h av sequence')"
  by pat_completeness auto
termination
proof (relation "measure (\<lambda>(h, av, xs). inversions (value_of h av) xs)")
  show "wf (measure (\<lambda>(h, av, xs). inversions (value_of h av) xs))"
    by simp
next
  fix h av sequence ys d
  assume "(ys, d) = sort_pass h av sequence" and "\<not> d"
  then show "((h, av, ys), (h, av, sequence)) \<in> measure (\<lambda>(h, av, xs). inversions (value_of h av) xs)"
    using sort_pass_facts(3) [of h av sequence ys d] by simp
qed

declare sort_sequence.simps [simp del]

lemma sort_sequence_mset: "mset (sort_sequence h av xs) = mset xs"
proof (induction h av xs rule: sort_sequence.induct)
  case (1 h av xs)
  obtain ys d where p: "sort_pass h av xs = (ys, d)"
    by (cases "sort_pass h av xs")
  show ?case
  proof (cases d)
    case True
    then show ?thesis
      using p sort_pass_facts(2) [OF p] by (simp add: sort_sequence.simps [of h av xs])
  next
    case False
    then show ?thesis
      using p sort_pass_facts(2) [OF p] "1.IH" [of ys d]
      by (simp add: sort_sequence.simps [of h av xs])
  qed
qed

lemma sort_sequence_length: "length (sort_sequence h av xs) = length xs"
  using sort_sequence_mset [of h av xs] by (metis size_mset)

section \<open>push_joker_toend\<close>

text \<open>
  \<open>for card in sequence\<close> walks the list by position while the body removes from that
  same list: the iterator reads \<open>sequence[i]\<close> as long as \<open>i < len(sequence)\<close>, and
  \<open>sequence.remove(card)\<close> deletes the first occurrence of the object.
\<close>

function push_loop :: "store \<Rightarrow> nat \<Rightarrow> ref list \<Rightarrow> ref list \<Rightarrow> ref list \<times> ref list" where
  "push_loop h i sequence joker_list =
     (if i < length sequence
      then (let c = sequence ! i in
              if isjoker (h c)
              then push_loop h (i + 1) (remove1 c sequence) (joker_list @ [c])
              else push_loop h (i + 1) sequence joker_list)
      else (sequence, joker_list))"
  by pat_completeness auto
termination
  by (relation "measure (\<lambda>(h, i, sequence, joker_list). length sequence - i)")
     (auto simp: length_remove1)

declare push_loop.simps [simp del]

definition push_joker_toend :: "store \<Rightarrow> int \<Rightarrow> ref list \<Rightarrow> ref list" where
  "push_joker_toend h av sequence =
     (case push_loop h 0 (sort_sequence h av sequence) [] of
        (sequence', joker_list) \<Rightarrow> sequence' @ joker_list)"

section \<open>is_valid_book\<close>

text \<open>
  The rotation loop \<open>while(sequence[0].isjoker == True)\<close> has no bound of its own, so
  its model may fail to return (\<open>None\<close>); \<open>sequence[0]\<close> on an empty list raises.
\<close>

partial_function (option) book_rotate :: "store \<Rightarrow> ref list \<Rightarrow> (error + ref list) option" where
  "book_rotate h sequence =
     (if sequence = [] then Some (Inl IndexError)
      else if isjoker (h (sequence ! 0))
      then book_rotate h (tl sequence @ [hd sequence])
      else Some (Inr sequence))"

declare book_rotate.simps [code]

fun book_loop :: "store \<Rightarrow> ref list \<Rightarrow> ref list \<Rightarrow> bool" where
  "book_loop h sequence [] = True"
| "book_loop h sequence (c # rest) =
     (if isjoker (h c) then book_loop h sequence rest
      else if rank (h c) \<noteq> rank (h (sequence ! 0)) then False
      else book_loop h sequence rest)"

definition is_valid_book :: "store \<Rightarrow> ref list \<Rightarrow> (error + bool \<times> ref list) option" where
  "is_valid_book h sequence =
     (case book_rotate h sequence of
        None \<Rightarrow> None
      | Some (Inl e) \<Rightarrow> Some (Inl e)
      | Some (Inr sequence') \<Rightarrow> Some (Inr (book_loop h sequence' sequence', sequence')))"

section \<open>is_valid_run\<close>

fun suit_loop :: "store \<Rightarrow> ref list \<Rightarrow> ref list \<Rightarrow> bool" where
  "suit_loop h sequence [] = True"
| "suit_loop h sequence (c # rest) =
     (if suit (h c) \<noteq> suit (h (sequence ! 0)) then False
      else suit_loop h sequence rest)"

text \<open>
  The test \<open>sequence[0].rank == "A"\<close> followed by the test of \<open>sequence[1].rank\<close> against
  Q, J and K; both subscripts raise when the list is too short.
\<close>

definition ace_wrap :: "store \<Rightarrow> ref list \<Rightarrow> error + bool" where
  "ace_wrap h sequence =
     (if sequence = [] then Inl IndexError
      else if rank (h (sequence ! 0)) = A
      then (if length sequence < 2 then Inl IndexError
            else Inr (rank (h (sequence ! 1)) = Q \<or> rank (h (sequence ! 1)) = J
                      \<or> rank (h (sequence ! 1)) = K))
      else Inr False)"

definition rank_loop :: "store \<Rightarrow> int \<Rightarrow> ref list \<Rightarrow> bool" where
  "rank_loop h av sequence =
     list_all (\<lambda>i. value_of h av (sequence ! i) = value_of h av (sequence ! (i - 1)) + 1)
       [1..<length sequence]"

text \<open>
  The result carries the verdict, the sequence as the call leaves it, and the value the
  call leaves in \<open>RANK_VALUE["A"]\<close>.  The incoming value \<open>av0\<close> is overwritten first.
\<close>

definition is_valid_run :: "store \<Rightarrow> int \<Rightarrow> ref list \<Rightarrow> error + bool \<times> ref list \<times> int" where
  "is_valid_run h av0 sequence0 =
     (let av = 1;
          sequence = sort_sequence h av sequence0
      in if \<not> suit_loop h sequence sequence then Inr (False, sequence, av)
         else case ace_wrap h sequence of
                Inl e \<Rightarrow> Inl e
              | Inr wrap \<Rightarrow>
                  if wrap
                  then Inr (rank_loop h 14 (sort_sequence h 14 sequence),
                            sort_sequence h 14 sequence, 14)
                  else Inr (rank_loop h av sequence, sequence, av))"

section \<open>is_valid_run_joker\<close>

primrec count_jokers :: "store \<Rightarrow> ref list \<Rightarrow> nat" where
  "count_jokers h [] = 0"
| "count_jokers h (c # rest) =
     (if isjoker (h c) then count_jokers h rest + 1 else count_jokers h rest)"

fun joker_suit_loop :: "store \<Rightarrow> ref list \<Rightarrow> ref list \<Rightarrow> bool" where
  "joker_suit_loop h sequence [] = True"
| "joker_suit_loop h sequence (c # rest) =
     (if isjoker (h c) then joker_suit_loop h sequence rest
      else if suit (h c) \<noteq> suit (h (sequence ! 0)) then False
      else joker_suit_loop h sequence rest)"

text \<open>
  The inner \<open>while\<close> loop at position \<open>i\<close>: \<open>None\<close> is \<open>return False\<close>, \<open>Some\<close> is leaving
  the loop with the current \<open>rank_inc\<close> and \<open>joker_count\<close>.
\<close>

function gap_loop :: "store \<Rightarrow> int \<Rightarrow> ref list \<Rightarrow> nat \<Rightarrow> int \<Rightarrow> nat \<Rightarrow> (int \<times> nat) option" where
  "gap_loop h av sequence i rank_inc joker_count =
     (if value_of h av (sequence ! i) \<noteq> value_of h av (sequence ! (i - 1)) + rank_inc
      then (if joker_count > 0
            then gap_loop h av sequence i (rank_inc + 1) (joker_count - 1)
            else if value_of h av (sequence ! i) \<noteq> value_of h av (sequence ! (i - 1)) + 1
                 then None
                 else Some (rank_inc, joker_count))
      else Some (rank_inc, joker_count))"
  by pat_completeness auto
termination
  by (relation "measure (\<lambda>(h, av, sequence, i, rank_inc, joker_count). joker_count)") auto

declare gap_loop.simps [simp del]

fun gap_walk :: "store \<Rightarrow> int \<Rightarrow> ref list \<Rightarrow> nat list \<Rightarrow> int \<Rightarrow> nat \<Rightarrow> bool" where
  "gap_walk h av sequence [] rank_inc joker_count = True"
| "gap_walk h av sequence (i # rest) rank_inc joker_count =
     (if isjoker (h (sequence ! i)) then gap_walk h av sequence rest rank_inc joker_count
      else case gap_loop h av sequence i rank_inc joker_count of
             None \<Rightarrow> False
           | Some (rank_inc', joker_count') \<Rightarrow>
               gap_walk h av sequence rest rank_inc' joker_count')"

definition is_valid_run_joker :: "store \<Rightarrow> int \<Rightarrow> ref list \<Rightarrow> error + bool \<times> ref list \<times> int" where
  "is_valid_run_joker h av0 sequence0 =
     (let av = 1;
          sequence = push_joker_toend h av (sort_sequence h av sequence0);
          joker_count = count_jokers h sequence
      in if \<not> joker_suit_loop h sequence sequence then Inr (False, sequence, av)
         else case ace_wrap h sequence of
                Inl e \<Rightarrow> Inl e
              | Inr wrap \<Rightarrow>
                  if wrap
                  then (let sequence' = push_joker_toend h 14 (sort_sequence h 14 sequence)
                        in Inr (gap_walk h 14 sequence' [1..<length sequence'] 1 joker_count,
                                sequence', 14))
                  else Inr (gap_walk h av sequence [1..<length sequence] 1 joker_count,
                            sequence, av))"

subsection \<open>The walk with a record of what the jokers stand for\<close>

text \<open>
  The same loops with one more variable, \<open>fills\<close>, that the program does not have.  Each
  time the inner loop spends a joker, the value it was looking for at that moment,
  \<open>RANK_VALUE[sequence[i-1].rank] + rank_inc\<close>, is appended: this is the rank value the
  joker stands in for.  Nothing else differs from \<open>gap_loop\<close> and \<open>gap_walk\<close>.
\<close>

function gap_loop_fills ::
  "store \<Rightarrow> int \<Rightarrow> ref list \<Rightarrow> nat \<Rightarrow> int \<Rightarrow> nat \<Rightarrow> int list \<Rightarrow> (int \<times> nat \<times> int list) option" where
  "gap_loop_fills h av sequence i rank_inc joker_count fills =
     (if value_of h av (sequence ! i) \<noteq> value_of h av (sequence ! (i - 1)) + rank_inc
      then (if joker_count > 0
            then gap_loop_fills h av sequence i (rank_inc + 1) (joker_count - 1)
                   (fills @ [value_of h av (sequence ! (i - 1)) + rank_inc])
            else if value_of h av (sequence ! i) \<noteq> value_of h av (sequence ! (i - 1)) + 1
                 then None
                 else Some (rank_inc, joker_count, fills))
      else Some (rank_inc, joker_count, fills))"
  by pat_completeness auto
termination
  by (relation "measure (\<lambda>(h, av, sequence, i, rank_inc, joker_count, fills). joker_count)") auto

declare gap_loop_fills.simps [simp del]

fun gap_walk_fills ::
  "store \<Rightarrow> int \<Rightarrow> ref list \<Rightarrow> nat list \<Rightarrow> int \<Rightarrow> nat \<Rightarrow> int list \<Rightarrow> int list option" where
  "gap_walk_fills h av sequence [] rank_inc joker_count fills = Some fills"
| "gap_walk_fills h av sequence (i # rest) rank_inc joker_count fills =
     (if isjoker (h (sequence ! i))
      then gap_walk_fills h av sequence rest rank_inc joker_count fills
      else case gap_loop_fills h av sequence i rank_inc joker_count fills of
             None \<Rightarrow> None
           | Some (rank_inc', joker_count', fills') \<Rightarrow>
               gap_walk_fills h av sequence rest rank_inc' joker_count' fills')"

text \<open>
  \<open>joker_fills\<close> runs \<open>is_valid_run_joker\<close> with the list of filled values: \<open>None\<close> when
  the call returns \<open>False\<close>, the list when it returns \<open>True\<close>.
\<close>

definition joker_fills :: "store \<Rightarrow> int \<Rightarrow> ref list \<Rightarrow> error + int list option" where
  "joker_fills h av0 sequence0 =
     (let av = 1;
          sequence = push_joker_toend h av (sort_sequence h av sequence0);
          joker_count = count_jokers h sequence
      in if \<not> joker_suit_loop h sequence sequence then Inr None
         else case ace_wrap h sequence of
                Inl e \<Rightarrow> Inl e
              | Inr wrap \<Rightarrow>
                  if wrap
                  then (let sequence' = push_joker_toend h 14 (sort_sequence h 14 sequence)
                        in Inr (gap_walk_fills h 14 sequence' [1..<length sequence'] 1
                                  joker_count []))
                  else Inr (gap_walk_fills h av sequence [1..<length sequence] 1
                              joker_count []))"

text \<open>A joker fills the value \<open>v\<close> when the call accepts and \<open>v\<close> is among the filled values.\<close>

definition joker_fills_rank :: "store \<Rightarrow> int \<Rightarrow> ref list \<Rightarrow> int \<Rightarrow> bool" where
  "joker_fills_rank h av sequence v =
     (case joker_fills h av sequence of
        Inl e \<Rightarrow> False
      | Inr None \<Rightarrow> False
      | Inr (Some fills) \<Rightarrow> List.member fills v)"

section \<open>Player operations\<close>

text \<open>
  \<open>deal_card\<close>: the body of the \<open>try\<close> appends first and raises afterwards; the handler
  prints the arguments of the \<open>ValueError\<close> and the method returns normally.  The result
  is the stash, the lines printed, and the exception leaving the method, if any.
\<close>

definition deal_card_try :: "ref list \<Rightarrow> ref \<Rightarrow> ref list \<times> error option" where
  "deal_card_try stash c =
     (let stash' = stash @ [c]
      in if length stash' > 14
         then (stash', Some (ValueError ''ERROR: Player cannot have more than 14 cards during turn''))
         else (stash', None))"

text \<open>
  \<open>print(err.args)\<close> writes the tuple of arguments: for the single message of the
  \<open>ValueError\<close>, which holds no quote and no backslash, an opening parenthesis, the message
  between single quotes, a comma and a closing parenthesis.
\<close>

definition print_args :: "string \<Rightarrow> string" where
  "print_args msg = ''('' @ [CHR 0x27] @ msg @ [CHR 0x27] @ '',)''"

definition deal_card :: "ref list \<Rightarrow> ref \<Rightarrow> ref list \<times> string list \<times> error option" where
  "deal_card stash c =
     (case deal_card_try stash c of
        (stash', Some (ValueError args)) \<Rightarrow> (stash', [print_args args], None)
      | (stash', Some e) \<Rightarrow> (stash', [], Some e)
      | (stash', None) \<Rightarrow> (stash', [], None))"

text \<open>
  \<open>get_object\<close> returns the first card of \<open>arr\<close> whose rank letter and whose suit's first
  letter are the two characters of \<open>str_card\<close>, and Python's \<open>None\<close> otherwise.
\<close>

definition get_object :: "store \<Rightarrow> ref list \<Rightarrow> string \<Rightarrow> ref option" where
  "get_object h arr str_card =
     (if length str_card \<noteq> 2 then None
      else find (\<lambda>item. rank_char (rank (h item)) = str_card ! 0
                       \<and> suit_name (suit (h item)) ! 0 = str_card ! 1) arr)"

record table =
  stash :: "ref list"
  pile :: "ref list"

definition add_pile :: "ref list \<Rightarrow> ref \<Rightarrow> ref list" where
  "add_pile p c = c # p"

text \<open>
  \<open>drop_card\<close> works on the player's stash and on the pile of the game the player
  belongs to.  A stash holds cards only, so \<open>None not in self.stash\<close> is true.
\<close>

definition drop_card :: "store \<Rightarrow> table \<Rightarrow> string \<Rightarrow> bool \<times> table" where
  "drop_card h t str_card =
     (case get_object h (stash t) str_card of
        None \<Rightarrow> (False, t)
      | Some c \<Rightarrow>
          if c \<notin> set (stash t) then (False, t)
          else (True, t\<lparr>stash := remove1 c (stash t), pile := add_pile (pile t) c\<rparr>))"

section \<open>close_game\<close>

definition set_array :: "ref list \<Rightarrow> ref list list" where
  "set_array st = [take 3 st, drop 3 (take 6 st), drop 6 (take 9 st), drop 9 st]"

text \<open>
  The counting loop.  Each call sorts its slice in place and leaves a value in
  \<open>RANK_VALUE["A"]\<close>; the slices and that value are handed on.
\<close>

fun count_runs :: "store \<Rightarrow> int \<Rightarrow> ref list list \<Rightarrow> error + nat \<times> ref list list \<times> int" where
  "count_runs h av [] = Inr (0, [], av)"
| "count_runs h av (s # rest) =
     (case is_valid_run h av s of
        Inl e \<Rightarrow> Inl e
      | Inr (b, s', av') \<Rightarrow>
          (case count_runs h av' rest of
             Inl e \<Rightarrow> Inl e
           | Inr (n, rest', av'') \<Rightarrow> Inr ((if b then n + 1 else n), s' # rest', av'')))"

text \<open>
  The second loop.  The three validators are joined by \<open>and\<close>, so a later one runs only
  when the earlier ones returned \<open>False\<close>, on the slice as they left it.
\<close>

fun check_sets :: "store \<Rightarrow> int \<Rightarrow> ref list list \<Rightarrow> (error + bool \<times> int) option" where
  "check_sets h av [] = Some (Inr (True, av))"
| "check_sets h av (s # rest) =
     (case is_valid_run h av s of
        Inl e \<Rightarrow> Some (Inl e)
      | Inr (b1, s1, av1) \<Rightarrow>
          if b1 then check_sets h av1 rest
          else (case is_valid_book h s1 of
                  None \<Rightarrow> None
                | Some (Inl e) \<Rightarrow> Some (Inl e)
                | Some (Inr (b2, s2)) \<Rightarrow>
                    if b2 then check_sets h av1 rest
                    else (case is_valid_run_joker h av1 s2 of
                            Inl e \<Rightarrow> Some (Inl e)
                          | Inr (b3, s3, av3) \<Rightarrow>
                              if b3 then check_sets h av3 rest
                              else Some (Inr (False, av3)))))"

text \<open>
  \<open>close_game\<close> returns the verdict together with the value left in \<open>RANK_VALUE["A"]\<close>;
  the stash itself is not touched, the slices are copies.
\<close>

definition close_game :: "store \<Rightarrow> int \<Rightarrow> ref list \<Rightarrow> (error + bool \<times> int) option" where
  "close_game h av st =
     (case count_runs h av (set_array st) of
        Inl e \<Rightarrow> Some (Inl e)
      | Inr (cnt, slices, av') \<Rightarrow>
          if cnt = 0 then Some (Inr (False, av'))
          else check_sets h av' slices)"

section \<open>Example cards and hands\<close>

definition card_of :: "rank \<Rightarrow> suit \<Rightarrow> bool \<Rightarrow> Card" where
  "card_of r s j = \<lparr>rank = r, suit = s, isjoker = j\<rparr>"

text \<open>Four jokers: J of Clubs, J of Hearts, J of Spades, J of Diamonds, each with the flag set.\<close>

definition joker_book :: store where
  "joker_book = (!) [card_of J Clubs True, card_of J Hearts True, card_of J Spades True,
     card_of J Diamonds True]"

text \<open>The six orders in which three cards can be handed to a validator.\<close>

definition orders3 :: "ref \<Rightarrow> ref \<Rightarrow> ref \<Rightarrow> ref list list" where
  "orders3 a b c = [[a, b, c], [a, c, b], [b, a, c], [b, c, a], [c, a, b], [c, b, a]]"

text \<open>
  The hand of the program's \<open>close_game\<close> unit test with the three J cards flagged as
  jokers.  References 0 to 11 are the twelve cards 4H 5H 6H, 5S 5D 5C, JC JH JS, 2D 3D 4D;
  reference 12 is the second 5D that the unit test deals first into the last group.
\<close>

definition closing_hand :: store where
  "closing_hand = (!) [card_of R4 Hearts False, card_of R5 Hearts False, card_of R6 Hearts False,
     card_of R5 Spades False, card_of R5 Diamonds False, card_of R5 Clubs False,
     card_of J Clubs True, card_of J Hearts True, card_of J Spades True,
     card_of R2 Diamonds False, card_of R3 Diamonds False, card_of R4 Diamonds False,
     card_of R5 Diamonds False]"

text \<open>2 of Hearts and 2 of Spades as jokers, and 5 of Diamonds.\<close>

definition two_jokers :: store where
  "two_jokers = (!) [card_of R2 Hearts True, card_of R2 Spades True, card_of R5 Diamonds False]"

text \<open>4 of Diamonds as joker, 6 of Diamonds, 7 of Diamonds.\<close>

definition joker_run_meld :: store where
  "joker_run_meld =
     (!) [card_of R4 Diamonds True, card_of R6 Diamonds False, card_of R7 Diamonds False]"

text \<open>4, 6 and 7 of Diamonds with no flag set, and 9 of Clubs as joker.\<close>

definition plain_gap_meld :: store where
  "plain_gap_meld =
     (!) [card_of R4 Diamonds False, card_of R6 Diamonds False, card_of R7 Diamonds False,
          card_of R9 Clubs True]"

text \<open>Queen, King, Ace, 2 and 3 of Spades.\<close>

definition spade_meld :: store where
  "spade_meld = (!) [card_of Q Spades False, card_of K Spades False, card_of A Spades False,
     card_of R2 Spades False, card_of R3 Spades False]"

text \<open>
  A card code names a card when it has two characters, the card's rank letter and the first
  letter of the card's suit.
\<close>

definition names_card :: "store \<Rightarrow> string \<Rightarrow> ref \<Rightarrow> bool" where
  "names_card h str_card c =
     (length str_card = 2 \<and> rank_char (rank (h c)) = str_card ! 0
      \<and> suit_name (suit (h c)) ! 0 = str_card ! 1)"

text \<open>
  A slice passes the run validator when \<open>is_valid_run\<close> returns \<open>True\<close> on it.  The call
  overwrites \<open>RANK_VALUE["A"]\<close> before reading it, so the incoming value plays no part.
\<close>

definition passes_run :: "store \<Rightarrow> ref list \<Rightarrow> bool" where
  "passes_run h s = (case is_valid_run h 1 s of Inl e \<Rightarrow> False | Inr (b, s', av') \<Rightarrow> b)"

definition has_joker :: "store \<Rightarrow> ref list \<Rightarrow> bool" where
  "has_joker h s = list_ex (\<lambda>c. isjoker (h c)) s"

text \<open>A pure run in the sense of the closing rule as the specification words it.\<close>

definition pure_run :: "store \<Rightarrow> ref list \<Rightarrow> bool" where
  "pure_run h s = (passes_run h s \<and> \<not> has_joker h s)"

text \<open>
  A hand for a game whose joker rank is 4: the groups are 4H (joker) 5H 6H, then three
  fives, three sevens and four nines.
\<close>

definition natural_joker_hand :: store where
  "natural_joker_hand =
     (!) [card_of R4 Hearts True, card_of R5 Hearts False, card_of R6 Hearts False,
     card_of R5 Spades False, card_of R5 Diamonds False, card_of R5 Clubs False,
     card_of R7 Spades False, card_of R7 Diamonds False, card_of R7 Clubs False,
     card_of R9 Spades False, card_of R9 Diamonds False, card_of R9 Clubs False,
     card_of R9 Hearts False]"

text \<open>A hand of four books and no joker: three threes, three fives, three sevens, four nines.\<close>

definition books_hand :: store where
  "books_hand = (!) [card_of R3 Hearts False, card_of R3 Spades False, card_of R3 Clubs False,
     card_of R5 Spades False, card_of R5 Diamonds False, card_of R5 Clubs False,
     card_of R7 Spades False, card_of R7 Diamonds False, card_of R7 Clubs False,
     card_of R9 Spades False, card_of R9 Diamonds False, card_of R9 Clubs False,
     card_of R9 Hearts False]"

section \<open>The book validator on jokers only\<close>

lemma book_rotate_jokers:
  assumes "book_rotate h xs = Some r"
  shows "\<not> (xs \<noteq> [] \<and> list_all (\<lambda>c. isjoker (h c)) xs)"
proof (rule book_rotate.raw_induct
    [where P = "\<lambda>h xs r. \<not> (xs \<noteq> [] \<and> list_all (\<lambda>c. isjoker (h c)) xs)", OF _ assms])
  fix f :: "store \<Rightarrow> ref list \<Rightarrow> (error + ref list) option"
    and h :: store and sequence :: "ref list" and r :: "error + ref list"
  assume IH: "\<And>h' s y. f h' s = Some y \<Longrightarrow> \<not> (s \<noteq> [] \<and> list_all (\<lambda>c. isjoker (h' c)) s)"
    and body: "(if sequence = [] then Some (Inl IndexError)
                else if isjoker (h (sequence ! 0)) then f h (tl sequence @ [hd sequence])
                else Some (Inr sequence)) = Some r"
  show "\<not> (sequence \<noteq> [] \<and> list_all (\<lambda>c. isjoker (h c)) sequence)"
  proof
    assume a: "sequence \<noteq> [] \<and> list_all (\<lambda>c. isjoker (h c)) sequence"
    then obtain x xs where sq: "sequence = x # xs"
      by (cases sequence) auto
    with a body have "f h (xs @ [x]) = Some r"
      by simp
    from IH [OF this] a show False
      by (simp add: sq)
  qed
qed

lemma is_valid_book_jokers:
  assumes "xs \<noteq> []" and "list_all (\<lambda>c. isjoker (h c)) xs"
  shows "is_valid_book h xs = None"
proof (cases "book_rotate h xs")
  case None
  then show ?thesis by (simp add: is_valid_book_def)
next
  case (Some r)
  then show ?thesis using book_rotate_jokers [OF Some] assms by simp
qed

text \<open>
  C1. The claim: on a meld of 3 or 4 cards that are all jokers, \<open>is_valid_book\<close> ends and
  returns true.  The program does not: on the meld of three flagged J cards, and on the
  meld of four, the rotation loop finds a joker in front after every rotation, and the
  call never returns.
\<close>

theorem C1_is_valid_book_all_jokers_never_returns:
  "is_valid_book joker_book [0, 1, 2] = None
   \<and> is_valid_book joker_book [0, 1, 2, 3] = None"
  by (intro conjI is_valid_book_jokers) (simp_all add: joker_book_def card_of_def)

section \<open>close_game on the hand with a group of three jokers\<close>

lemma is_valid_run_reset: "is_valid_run h av s = is_valid_run h av' s"
  by (simp add: is_valid_run_def)

lemma close_game_reset: "close_game h av st = close_game h av' st"
  by (simp add: close_game_def set_array_def is_valid_run_reset [of h av _ av'])

lemma closing_hand_count12:
  "count_runs closing_hand 1 (set_array [0, 1, 2, 3, 4, 5, 6, 7, 8, 9, 10, 11])
   = Inr (2, [[0, 1, 2], [3, 4, 5], [6, 7, 8], [9, 10, 11]], 1)"
  by code_simp

lemma closing_hand_count13:
  "count_runs closing_hand 1 (set_array [0, 1, 2, 3, 4, 5, 6, 7, 8, 12, 9, 10, 11])
   = Inr (2, [[0, 1, 2], [3, 4, 5], [6, 7, 8], [9, 10, 11, 12]], 1)"
  by code_simp

lemma closing_hand_run1: "is_valid_run closing_hand 1 [0, 1, 2] = Inr (True, [0, 1, 2], 1)"
  by code_simp

lemma closing_hand_run2: "is_valid_run closing_hand 1 [3, 4, 5] = Inr (False, [3, 4, 5], 1)"
  by code_simp

lemma closing_hand_book2: "is_valid_book closing_hand [3, 4, 5] = Some (Inr (True, [3, 4, 5]))"
  by code_simp

lemma closing_hand_run3: "is_valid_run closing_hand 1 [6, 7, 8] = Inr (False, [6, 7, 8], 1)"
  by code_simp

lemma closing_hand_book3: "is_valid_book closing_hand [6, 7, 8] = None"
  by (rule is_valid_book_jokers) (simp_all add: closing_hand_def card_of_def)

lemma closing_hand_12: "close_game closing_hand 1 [0, 1, 2, 3, 4, 5, 6, 7, 8, 9, 10, 11] = None"
  by (simp add: close_game_def closing_hand_count12 closing_hand_run1 closing_hand_run2
      closing_hand_book2 closing_hand_run3 closing_hand_book3 del: One_nat_def)

lemma closing_hand_13:
  "close_game closing_hand 1 [0, 1, 2, 3, 4, 5, 6, 7, 8, 12, 9, 10, 11] = None"
  by (simp add: close_game_def closing_hand_count13 closing_hand_run1 closing_hand_run2
      closing_hand_book2 closing_hand_run3 closing_hand_book3 del: One_nat_def)

text \<open>
  C2. The claim: \<open>close_game\<close> ends and returns true on the hand whose groups are
  4H 5H 6H, 5S 5D 5C, JC JH JS (all three jokers) and 2D 3D 4D.  The program does not
  return on it, whatever \<open>RANK_VALUE["A"]\<close> holds at the call: the third group is no run, so
  \<open>is_valid_book\<close> is called on three jokers.  The same holds for the thirteen cards of the
  unit test, where a second 5D leads the last group.
\<close>

theorem C2_close_game_joker_group_never_returns:
  "close_game closing_hand av [0, 1, 2, 3, 4, 5, 6, 7, 8, 9, 10, 11] = None
   \<and> close_game closing_hand av [0, 1, 2, 3, 4, 5, 6, 7, 8, 12, 9, 10, 11] = None"
  using closing_hand_12 closing_hand_13 close_game_reset [of closing_hand av _ 1] by simp

section \<open>push_joker_toend on two adjacent jokers\<close>

text \<open>
  C4. The claim: after \<open>push_joker_toend\<close> every joker stands behind every other card, and
  jokers and other cards keep their order.  On the sorted sequence 2H (joker), 2S (joker),
  5D the program leaves 2S, 5D, 2H: removing 2H moves 2S to the position the loop has
  already passed, so 2S is never looked at and stays in front of 5D, and the two jokers
  have changed places.
\<close>

theorem C4_push_joker_toend_skips_adjacent_joker:
  "sort_sequence two_jokers 1 [0, 1, 2] = [0, 1, 2]
   \<and> push_joker_toend two_jokers 1 [0, 1, 2] = [1, 2, 0]"
  by code_simp

section \<open>Joker substitution and the two values of the ace\<close>

lemma gap_loop_fills_eq:
  "map_option (\<lambda>(r, j, f). (r, j)) (gap_loop_fills h av s i r j f) = gap_loop h av s i r j"
proof (induction h av s i r j f rule: gap_loop_fills.induct)
  case (1 h av s i r j f)
  show ?case
    using "1.IH"
    by (subst gap_loop_fills.simps, subst gap_loop.simps) simp
qed

lemma gap_walk_fills_eq:
  "gap_walk h av s idxs r j = (gap_walk_fills h av s idxs r j f \<noteq> None)"
proof (induction idxs arbitrary: r j f)
  case Nil
  then show ?case by simp
next
  case (Cons i idxs)
  show ?case
  proof (cases "isjoker (h (s ! i))")
    case True
    then show ?thesis using Cons.IH by simp
  next
    case False
    show ?thesis
    proof (cases "gap_loop_fills h av s i r j f")
      case None
      then have "gap_loop h av s i r j = None"
        using gap_loop_fills_eq [of h av s i r j f] by simp
      then show ?thesis using None False by simp
    next
      case (Some t)
      obtain r' j' f' where t: "t = (r', j', f')" by (cases t)
      have "gap_loop h av s i r j = Some (r', j')"
        using gap_loop_fills_eq [of h av s i r j f] Some t by simp
      then show ?thesis using Some t False Cons.IH [of r' j' f'] by simp
    qed
  qed
qed

lemma joker_fills_verdict:
  "map_sum id fst (is_valid_run_joker h av s) = map_sum id (\<lambda>fo. fo \<noteq> None) (joker_fills h av s)"
  by (auto simp: is_valid_run_joker_def joker_fills_def Let_def gap_walk_fills_eq [where f = "[]"]
      split: sum.splits)

text \<open>
  A joker that does fill a gap: in 4D, 6D with 9C as joker the walk misses the value 5
  between 4 and 6 and spends the joker on it.
\<close>

lemma joker_fills_gap_example:
  "is_valid_run_joker plain_gap_meld av [0, 1, 3] = Inr (True, [0, 1, 3], 1)
   \<and> joker_fills plain_gap_meld av [0, 1, 3] = Inr (Some [5])
   \<and> joker_fills_rank plain_gap_meld av [0, 1, 3] 5"
  by code_simp

text \<open>
  C5. The claim: the meld 4D (joker), 6D, 7D is accepted by \<open>is_valid_run_joker\<close>, the joker
  filling the missing rank 5, and rejected by \<open>is_valid_run\<close>.  The program accepts the
  meld, but no joker fills rank 5: the call spends its joker on no value at all.
\<close>

theorem C5_joker_fills_rank_counterexample:
  "is_valid_run_joker joker_run_meld 1 [0, 1, 2] = Inr (True, [1, 2, 0], 1)
   \<and> joker_fills joker_run_meld 1 [0, 1, 2] = Inr (Some [])
   \<and> \<not> joker_fills_rank joker_run_meld 1 [0, 1, 2] 5"
  by code_simp

text \<open>
  C5, as the program has it: the meld 4D (joker), 6D, 7D is accepted by
  \<open>is_valid_run_joker\<close> and rejected by \<open>is_valid_run\<close>, in whatever order the three cards are
  handed over and whatever \<open>RANK_VALUE["A"]\<close> holds at the call.  \<open>is_valid_run_joker\<close> moves
  the joker behind 6D and 7D; these two follow each other, so the walk meets no gap: the
  one joker counted is left unspent and fills no rank.  What the flag does is take 4D out
  of the progression: with the flag cleared, \<open>is_valid_run_joker\<close> rejects the same three
  cards.
\<close>

theorem C5_joker_run_accepted_joker_unspent:
  "is_valid_run_joker joker_run_meld av [0, 1, 2] = Inr (True, [1, 2, 0], 1)
   \<and> is_valid_run joker_run_meld av [0, 1, 2] = Inr (False, [0, 1, 2], 1)
   \<and> map (is_valid_run_joker joker_run_meld av) (orders3 0 1 2)
       = replicate 6 (Inr (True, [1, 2, 0], 1))
   \<and> map (is_valid_run joker_run_meld av) (orders3 0 1 2)
       = replicate 6 (Inr (False, [0, 1, 2], 1))
   \<and> count_jokers joker_run_meld [1, 2, 0] = 1
   \<and> gap_loop joker_run_meld 1 [1, 2, 0] 1 1 1 = Some (1, 1)
   \<and> map (joker_fills joker_run_meld av) (orders3 0 1 2) = replicate 6 (Inr (Some []))
   \<and> is_valid_run_joker plain_gap_meld av [0, 1, 2] = Inr (False, [0, 1, 2], 1)"
  by code_simp

text \<open>
  C6. \<open>is_valid_run\<close> returns true for Queen, King, Ace of Spades, leaving the ace at 14, and
  returns true for Ace, 2, 3 of Spades, leaving the ace at 1.  Each call resets the value of
  the ace itself, so the second call succeeds from any incoming value, the 14 left by the
  first call included.  The order in which the three cards are handed over makes no
  difference.
\<close>

theorem C6_ace_high_and_ace_low_runs:
  "is_valid_run spade_meld av [0, 1, 2] = Inr (True, [0, 1, 2], 14)
   \<and> is_valid_run spade_meld 14 [2, 3, 4] = Inr (True, [2, 3, 4], 1)
   \<and> is_valid_run spade_meld av' [2, 3, 4] = Inr (True, [2, 3, 4], 1)
   \<and> map (is_valid_run spade_meld av) (orders3 0 1 2) = replicate 6 (Inr (True, [0, 1, 2], 14))
   \<and> map (is_valid_run spade_meld av') (orders3 2 3 4) = replicate 6 (Inr (True, [2, 3, 4], 1))"
  by code_simp

section \<open>Dealing and dropping\<close>

text \<open>
  C8. When the card code names no card of the stash, \<open>drop_card\<close> returns \<open>False\<close> and
  leaves the stash and the pile as they were.
\<close>

theorem C8_drop_card_absent_rejected:
  assumes "\<forall>c\<in>set (stash t). \<not> names_card h str_card c"
  shows "drop_card h t str_card = (False, t)"
proof -
  have "get_object h (stash t) str_card = None"
    using assms by (auto simp: get_object_def names_card_def find_None_iff)
  then show ?thesis by (simp add: drop_card_def)
qed

theorem C8_drop_card_absent_witness:
  "\<not> names_card spade_meld ''QH'' 0 \<and> \<not> names_card spade_meld ''QH'' 1
   \<and> \<not> names_card spade_meld ''QH'' 2
   \<and> drop_card spade_meld \<lparr>stash = [0, 1, 2], pile = [3]\<rparr> ''QH''
       = (False, \<lparr>stash = [0, 1, 2], pile = [3]\<rparr>)"
proof -
  have n: "\<not> names_card spade_meld ''QH'' 0 \<and> \<not> names_card spade_meld ''QH'' 1
     \<and> \<not> names_card spade_meld ''QH'' 2"
    by (simp add: names_card_def spade_meld_def card_of_def)
  have a: "\<forall>c\<in>set (stash \<lparr>stash = [0, 1, 2], pile = [3]\<rparr>). \<not> names_card spade_meld ''QH'' c"
    using n by simp
  show ?thesis
    using n C8_drop_card_absent_rejected [OF a] by simp
qed

text \<open>
  C10. \<open>deal_card\<close> appends the card to the stash in every case.  From 14 cards on, the
  arguments of the \<open>ValueError\<close> are printed; no exception leaves the call and the card
  stays, so the stash is one card longer than before, beyond 14 as well.
\<close>

theorem C10_deal_card_always_appends:
  "deal_card st c =
     (st @ [c],
      (if length st \<ge> 14
       then [print_args ''ERROR: Player cannot have more than 14 cards during turn'']
       else []),
      None)
   \<and> length (fst (deal_card st c)) = length st + 1"
  by (simp add: deal_card_def deal_card_try_def)

section \<open>What the validators leave behind\<close>

lemma ace_wrap_ok: "2 \<le> length s \<Longrightarrow> \<exists>w. ace_wrap h s = Inr w"
  by (auto simp: ace_wrap_def)

lemma is_valid_run_ok:
  assumes "2 \<le> length s"
  shows "\<exists>b s' av'. is_valid_run h av s = Inr (b, s', av') \<and> mset s' = mset s"
proof -
  have "2 \<le> length (sort_sequence h 1 s)"
    using assms by (simp add: sort_sequence_length)
  then obtain w where "ace_wrap h (sort_sequence h 1 s) = Inr w"
    using ace_wrap_ok by blast
  then show ?thesis
    by (auto simp: is_valid_run_def Let_def sort_sequence_mset)
qed

lemma push_loop_mset:
  "push_loop h i xs jl = (ys, jl') \<Longrightarrow> mset ys + mset jl' = mset xs + mset jl"
proof (induction h i xs jl arbitrary: ys jl' rule: push_loop.induct)
  case (1 h i xs jl)
  show ?case
  proof (cases "i < length xs")
    case False
    then show ?thesis using "1.prems" by (simp add: push_loop.simps [of h i xs jl])
  next
    case True
    show ?thesis
    proof (cases "isjoker (h (xs ! i))")
      case True
      have "push_loop h (i + 1) (remove1 (xs ! i) xs) (jl @ [xs ! i]) = (ys, jl')"
        using "1.prems" \<open>i < length xs\<close> True by (simp add: push_loop.simps [of h i xs jl] Let_def)
      then have "mset ys + mset jl' = mset (remove1 (xs ! i) xs) + mset (jl @ [xs ! i])"
        using "1.IH"(1) [OF \<open>i < length xs\<close> refl True] by simp
      moreover have "xs ! i \<in># mset xs"
        using \<open>i < length xs\<close> by simp
      ultimately show ?thesis by simp
    next
      case False
      have "push_loop h (i + 1) xs jl = (ys, jl')"
        using "1.prems" \<open>i < length xs\<close> False by (simp add: push_loop.simps [of h i xs jl] Let_def)
      then show ?thesis
        using "1.IH"(2) [OF \<open>i < length xs\<close> refl False] by simp
    qed
  qed
qed

lemma push_joker_toend_mset: "mset (push_joker_toend h av xs) = mset xs"
proof -
  obtain ys jl where p: "push_loop h 0 (sort_sequence h av xs) [] = (ys, jl)"
    by (cases "push_loop h 0 (sort_sequence h av xs) []")
  from push_loop_mset [OF p] show ?thesis
    by (simp add: push_joker_toend_def p sort_sequence_mset)
qed

lemma push_joker_toend_length: "length (push_joker_toend h av xs) = length xs"
  using push_joker_toend_mset [of h av xs] by (metis size_mset)

lemma is_valid_run_joker_ok:
  assumes "2 \<le> length s"
  shows "\<exists>b s' av'. is_valid_run_joker h av s = Inr (b, s', av') \<and> mset s' = mset s"
proof -
  let ?s1 = "push_joker_toend h 1 (sort_sequence h 1 s)"
  have m: "mset ?s1 = mset s"
    by (simp add: push_joker_toend_mset sort_sequence_mset)
  have "2 \<le> length ?s1"
    using assms by (simp add: push_joker_toend_length sort_sequence_length)
  then obtain w where "ace_wrap h ?s1 = Inr w"
    using ace_wrap_ok by blast
  then show ?thesis
    using m by (auto simp: is_valid_run_joker_def Let_def push_joker_toend_mset sort_sequence_mset)
qed

lemma book_rotate_split:
  "list_all (\<lambda>c. isjoker (h c)) js \<Longrightarrow> \<not> isjoker (h x) \<Longrightarrow>
     book_rotate h (js @ x # rest) = Some (Inr (x # rest @ js))"
proof (induction js arbitrary: rest)
  case Nil
  then show ?case by (simp add: book_rotate.simps [of h "x # rest"])
next
  case (Cons j js)
  have "book_rotate h ((j # js) @ x # rest) = book_rotate h (js @ x # (rest @ [j]))"
    using Cons.prems(1) by (simp add: book_rotate.simps [of h "j # js @ x # rest"])
  also have "\<dots> = Some (Inr (x # (rest @ [j]) @ js))"
    using Cons.IH [of "rest @ [j]"] Cons.prems by simp
  finally show ?case by simp
qed

lemma is_valid_book_ok:
  assumes "\<exists>c\<in>set s. \<not> isjoker (h c)"
  shows "\<exists>b s'. is_valid_book h s = Some (Inr (b, s')) \<and> mset s' = mset s"
proof -
  obtain js x rest where s: "s = js @ x # rest" and x: "\<not> isjoker (h x)"
    and js: "\<forall>j\<in>set js. \<not> \<not> isjoker (h j)"
    using split_list_first_prop [OF assms] by blast
  have "book_rotate h s = Some (Inr (x # rest @ js))"
    unfolding s using js x by (intro book_rotate_split) (simp_all add: list_all_iff)
  then show ?thesis
    by (simp add: is_valid_book_def s)
qed

text \<open>
  C9. On a meld of 3 or 4 cards with at least one card that is no joker, each of the three
  validators returns, and the meld it leaves holds the same cards as before, each as
  often as before: the calls only reorder.
\<close>

theorem C9_validators_only_reorder:
  assumes "length s = 3 \<or> length s = 4" and "\<exists>c\<in>set s. \<not> isjoker (h c)"
  shows "(\<exists>b s'. is_valid_book h s = Some (Inr (b, s')) \<and> mset s' = mset s)
       \<and> (\<exists>b s' av'. is_valid_run h av s = Inr (b, s', av') \<and> mset s' = mset s)
       \<and> (\<exists>b s' av'. is_valid_run_joker h av s = Inr (b, s', av') \<and> mset s' = mset s)"
proof -
  have "2 \<le> length s"
    using assms(1) by auto
  then show ?thesis
    using is_valid_book_ok [OF assms(2)] is_valid_run_ok [of s h av]
      is_valid_run_joker_ok [of s h av]
    by simp
qed

theorem C9_validators_only_reorder_witness:
  "(length [0, 1, 2 :: ref] = 3 \<or> length [0, 1, 2 :: ref] = 4)
   \<and> (\<exists>c\<in>set [0, 1, 2]. \<not> isjoker (joker_run_meld c))
   \<and> (\<exists>b s'. is_valid_book joker_run_meld [0, 1, 2] = Some (Inr (b, s'))
          \<and> mset s' = mset [0, 1, 2])
   \<and> (\<exists>b s' av'. is_valid_run joker_run_meld 1 [0, 1, 2] = Inr (b, s', av')
          \<and> mset s' = mset [0, 1, 2])
   \<and> (\<exists>b s' av'. is_valid_run_joker joker_run_meld 1 [0, 1, 2] = Inr (b, s', av')
          \<and> mset s' = mset [0, 1, 2])"
proof -
  have a: "length [0, 1, 2 :: ref] = 3 \<or> length [0, 1, 2 :: ref] = 4"
    by simp
  have b: "\<exists>c\<in>set [0, 1, 2]. \<not> isjoker (joker_run_meld c)"
    by (simp add: joker_run_meld_def card_of_def)
  show ?thesis
    using a b C9_validators_only_reorder [OF a b, of 1] by blast
qed

section \<open>The closing rule\<close>

lemma passes_run_iff:
  "passes_run h s \<longleftrightarrow> (\<exists>s' av'. is_valid_run h av s = Inr (True, s', av'))"
  unfolding passes_run_def is_valid_run_reset [of h av s 1]
  by (auto split: sum.splits)

lemma count_runs_zero:
  "\<forall>s\<in>set ss. 2 \<le> length s \<and> \<not> passes_run h s \<Longrightarrow>
     \<exists>ss' av'. count_runs h av ss = Inr (0, ss', av')"
proof (induction ss arbitrary: av)
  case Nil
  then show ?case by simp
next
  case (Cons s ss)
  obtain b s' av1 where r: "is_valid_run h av s = Inr (b, s', av1)"
    using is_valid_run_ok [of s h av] Cons.prems by auto
  have "\<not> b"
    using Cons.prems r passes_run_iff [of h s av] by auto
  moreover obtain ss' av2 where "count_runs h av1 ss = Inr (0, ss', av2)"
    using Cons.IH [of av1] Cons.prems by auto
  ultimately show ?case
    using r by simp
qed

lemma count_runs_pos:
  "count_runs h av ss = Inr (n, ss', av') \<Longrightarrow> n \<noteq> 0 \<Longrightarrow> \<exists>s\<in>set ss. passes_run h s"
proof (induction ss arbitrary: av n ss' av')
  case Nil
  then show ?case by simp
next
  case (Cons s ss)
  obtain b s1 av1 where r: "is_valid_run h av s = Inr (b, s1, av1)"
    using Cons.prems(1) by (auto split: sum.splits)
  obtain m ss1 av2 where c: "count_runs h av1 ss = Inr (m, ss1, av2)"
    using Cons.prems(1) r by (auto split: sum.splits)
  show ?case
  proof (cases b)
    case True
    then have "passes_run h s"
      using r passes_run_iff [of h s av] by auto
    then show ?thesis by simp
  next
    case False
    then have "m \<noteq> 0"
      using Cons.prems r c by auto
    then show ?thesis
      using Cons.IH [OF c] by auto
  qed
qed

lemma set_array_lengths:
  "length st = 13 \<Longrightarrow> \<forall>s\<in>set (set_array st). 2 \<le> length s"
  by (simp add: set_array_def)


text \<open>
  C7. On a hand of 13 cards of which no group passes \<open>is_valid_run\<close>, \<open>close_game\<close>
  returns \<open>False\<close>; the book validator is not even called.  The hand of four books shows
  it: every group is a valid book, and the result is \<open>False\<close>.
\<close>

theorem C7_close_game_without_run_is_false:
  assumes "length st = 13" and "\<forall>s\<in>set (set_array st). \<not> passes_run h s"
  shows "\<exists>av'. close_game h av st = Some (Inr (False, av'))"
proof -
  have "\<forall>s\<in>set (set_array st). 2 \<le> length s \<and> \<not> passes_run h s"
    using assms set_array_lengths by blast
  then obtain ss' av' where "count_runs h av (set_array st) = Inr (0, ss', av')"
    using count_runs_zero by blast
  then show ?thesis
    by (simp add: close_game_def)
qed

theorem C7_close_game_without_run_witness:
  "length [0, 1, 2, 3, 4, 5, 6, 7, 8, 9, 10, 11, 12 :: ref] = 13
   \<and> set_array [0, 1, 2, 3, 4, 5, 6, 7, 8, 9, 10, 11, 12]
       = [[0, 1, 2], [3, 4, 5], [6, 7, 8], [9, 10, 11, 12]]
   \<and> \<not> passes_run books_hand [0, 1, 2]
   \<and> \<not> passes_run books_hand [3, 4, 5]
   \<and> \<not> passes_run books_hand [6, 7, 8]
   \<and> \<not> passes_run books_hand [9, 10, 11, 12]
   \<and> is_valid_book books_hand [0, 1, 2] = Some (Inr (True, [0, 1, 2]))
   \<and> is_valid_book books_hand [3, 4, 5] = Some (Inr (True, [3, 4, 5]))
   \<and> is_valid_book books_hand [6, 7, 8] = Some (Inr (True, [6, 7, 8]))
   \<and> is_valid_book books_hand [9, 10, 11, 12] = Some (Inr (True, [9, 10, 11, 12]))
   \<and> (\<exists>av'. close_game books_hand 1 [0, 1, 2, 3, 4, 5, 6, 7, 8, 9, 10, 11, 12]
              = Some (Inr (False, av')))"
proof -
  have a: "length [0, 1, 2, 3, 4, 5, 6, 7, 8, 9, 10, 11, 12 :: ref] = 13"
    by simp
  have sl: "set_array [0, 1, 2, 3, 4, 5, 6, 7, 8, 9, 10, 11, 12]
              = [[0, 1, 2], [3, 4, 5], [6, 7, 8], [9, 10, 11, 12]]"
    by code_simp
  have r: "\<not> passes_run books_hand [0, 1, 2] \<and> \<not> passes_run books_hand [3, 4, 5]
     \<and> \<not> passes_run books_hand [6, 7, 8] \<and> \<not> passes_run books_hand [9, 10, 11, 12]"
    by code_simp
  have b: "\<forall>s\<in>set (set_array [0, 1, 2, 3, 4, 5, 6, 7, 8, 9, 10, 11, 12]).
             \<not> passes_run books_hand s"
    unfolding sl using r by simp
  have c: "is_valid_book books_hand [0, 1, 2] = Some (Inr (True, [0, 1, 2]))
     \<and> is_valid_book books_hand [3, 4, 5] = Some (Inr (True, [3, 4, 5]))
     \<and> is_valid_book books_hand [6, 7, 8] = Some (Inr (True, [6, 7, 8]))
     \<and> is_valid_book books_hand [9, 10, 11, 12] = Some (Inr (True, [9, 10, 11, 12]))"
    by code_simp
  show ?thesis
    using a sl r c C7_close_game_without_run_is_false [OF a b, of 1] by blast
qed

text \<open>
  C3. The claim: when \<open>close_game\<close> returns \<open>True\<close>, one of the four groups passes
  \<open>is_valid_run\<close> and holds no joker.  \<open>is_valid_run\<close> never reads the joker flag, so a run in
  which a flagged card stands at its own rank counts: the hand below closes, its only run
  is 4H (joker) 5H 6H, and no group is a run free of jokers.
\<close>

theorem C3_pure_run_counterexample:
  "close_game natural_joker_hand 1 [0, 1, 2, 3, 4, 5, 6, 7, 8, 9, 10, 11, 12] = Some (Inr (True, 1))
   \<and> set_array [0, 1, 2, 3, 4, 5, 6, 7, 8, 9, 10, 11, 12]
       = [[0, 1, 2], [3, 4, 5], [6, 7, 8], [9, 10, 11, 12]]
   \<and> \<not> pure_run natural_joker_hand [0, 1, 2]
   \<and> \<not> pure_run natural_joker_hand [3, 4, 5]
   \<and> \<not> pure_run natural_joker_hand [6, 7, 8]
   \<and> \<not> pure_run natural_joker_hand [9, 10, 11, 12]"
  by code_simp

text \<open>
  C3, as the program has it: when \<open>close_game\<close> returns \<open>True\<close>, one of the four groups
  passes \<open>is_valid_run\<close>, that is, its cards taken at their own ranks form a run of one
  suit.  This holds for every hand, the 13-card hands among them.
\<close>

theorem C3_close_game_true_has_run:
  assumes "close_game h av st = Some (Inr (True, av'))"
  shows "\<exists>s\<in>set (set_array st). passes_run h s"
proof -
  obtain n ss av1 where "count_runs h av (set_array st) = Inr (n, ss, av1)" and "n \<noteq> 0"
    using assms by (auto simp: close_game_def split: sum.splits if_splits)
  then show ?thesis
    using count_runs_pos by blast
qed

theorem C3_close_game_true_has_run_witness:
  "close_game natural_joker_hand 1 [0, 1, 2, 3, 4, 5, 6, 7, 8, 9, 10, 11, 12] = Some (Inr (True, 1))
   \<and> (\<exists>s\<in>set (set_array [0, 1, 2, 3, 4, 5, 6, 7, 8, 9, 10, 11, 12]).
         passes_run natural_joker_hand s)"
proof -
  have a: "close_game natural_joker_hand 1 [0, 1, 2, 3, 4, 5, 6, 7, 8, 9, 10, 11, 12]
             = Some (Inr (True, 1))"
    by code_simp
  show ?thesis
    using a C3_close_game_true_has_run [OF a] by simp
qed

end
